theory Spec2Isabelle
  imports Complex_Main
begin

section \<open>Geometry (TestGcc/geometry.h)\<close>

text \<open>
  The source computes on C++ \<open>double\<close>. A finite double is a real number, and the
  coordinates of a point are \<^typ>\<open>real\<close>. \<open>isInside\<close> compares coordinates and takes
  \<open>std::min\<close> and \<open>std::max\<close> of them, which is exact on doubles; its one computed
  value, the intersection abscissa, is taken without rounding. \<open>distance\<close> is modelled
  with the arithmetic of doubles (rounding, underflow and overflow), below.
  \<open>struct Point\<close> has the fields \<open>x\<close> and \<open>y\<close>; the selectors are called \<open>px\<close> and \<open>py\<close>
  here, so that \<open>x\<close> and \<open>y\<close> stay free for the local variables of \<open>isInside\<close>.
\<close>

datatype Point = Point (px: real) (py: real)

datatype Polygon = Polygon (vertices: "Point list")

subsection \<open>The arithmetic of doubles\<close>

text \<open>
  IEEE 754 binary64, rounding to nearest, ties to even. A value is a finite real, an
  infinity or a NaN; the two zeros are one value (\<open>==\<close> does not tell them apart, and
  nothing below depends on the sign of a zero).

  \<open>rne\<close> rounds a real to the nearest integer, a tie to the even one. \<open>quantum x\<close> is the
  spacing of the doubles around \<open>x\<close>: \<open>2^(e - 52)\<close> for \<open>2^e \<le> |x| < 2^(e + 1)\<close>, and
  \<open>2^-1074\<close> throughout the subnormal range below \<open>2^-1022\<close>. \<open>round_double x\<close> is the
  multiple of the quantum nearest to \<open>x\<close>, and an infinity when that reaches \<open>2^1024\<close>.
\<close>

datatype double = Finite real | PosInf | NegInf | NaN

definition rne :: "real \<Rightarrow> int" where
  "rne y =
     (let f = \<lfloor>y\<rfloor>; d = y - of_int f
      in if d < 1 / 2 then f else if 1 / 2 < d then f + 1 else if even f then f else f + 1)"

definition quantum :: "real \<Rightarrow> real" where
  "quantum x = 2 powr of_int (max \<lfloor>log 2 \<bar>x\<bar>\<rfloor> (- 1022) - 52)"

definition round_double :: "real \<Rightarrow> double" where
  "round_double x =
     (if x = 0 then Finite 0
      else
        let r = of_int (rne (x / quantum x)) * quantum x
        in if 2 powr 1024 \<le> \<bar>r\<bar> then (if 0 < x then PosInf else NegInf) else Finite r)"

text \<open>The reals that are doubles: those that rounding leaves as they are.\<close>

definition is_double :: "real \<Rightarrow> bool" where
  "is_double x \<longleftrightarrow> round_double x = Finite x"

text \<open>
  The operations of \<open>distance\<close>. \<open>d_sub\<close> is the difference of two finite doubles, as the
  coordinates of a point are. \<open>d_pow2\<close> is \<open>std::pow(x, 2)\<close>, taken to return the correctly
  rounded square (an infinity for an infinite argument). \<open>d_add\<close> and \<open>d_sqrt\<close> are the
  sum and \<open>std::sqrt\<close>, correctly rounded, with the standard's results on infinities and
  NaN. \<open>d_ge0\<close> is the comparison \<open>0 <= d\<close>, false of a NaN.
\<close>

definition d_sub :: "real \<Rightarrow> real \<Rightarrow> double" where
  "d_sub a b = round_double (a - b)"

fun d_pow2 :: "double \<Rightarrow> double" where
  "d_pow2 (Finite a) = round_double (a * a)"
| "d_pow2 PosInf = PosInf"
| "d_pow2 NegInf = PosInf"
| "d_pow2 NaN = NaN"

fun d_add :: "double \<Rightarrow> double \<Rightarrow> double" where
  "d_add (Finite a) (Finite b) = round_double (a + b)"
| "d_add NaN v = NaN"
| "d_add u NaN = NaN"
| "d_add PosInf NegInf = NaN"
| "d_add NegInf PosInf = NaN"
| "d_add PosInf v = PosInf"
| "d_add u PosInf = PosInf"
| "d_add NegInf v = NegInf"
| "d_add u NegInf = NegInf"

fun d_sqrt :: "double \<Rightarrow> double" where
  "d_sqrt (Finite a) = (if a < 0 then NaN else round_double (sqrt a))"
| "d_sqrt PosInf = PosInf"
| "d_sqrt NegInf = NaN"
| "d_sqrt NaN = NaN"

fun d_ge0 :: "double \<Rightarrow> bool" where
  "d_ge0 (Finite a) \<longleftrightarrow> 0 \<le> a"
| "d_ge0 PosInf \<longleftrightarrow> True"
| "d_ge0 NegInf \<longleftrightarrow> False"
| "d_ge0 NaN \<longleftrightarrow> False"

text \<open>\<open>distance\<close>: \<open>std::sqrt(std::pow(p2.x - p1.x, 2) + std::pow(p2.y - p1.y, 2))\<close>.\<close>

definition distance :: "Point \<Rightarrow> Point \<Rightarrow> double" where
  "distance p1 p2 =
     d_sqrt (d_add (d_pow2 (d_sub (px p2) (px p1))) (d_pow2 (d_sub (py p2) (py p1))))"

text \<open>
  For the proofs: the negation of a double, the reals on the grid of the subnormal
  spacing \<open>2^-1074\<close> (every finite double is), and the doubles a rounded square or a sum
  of such can be: a finite one that is not negative, or the positive infinity.
\<close>

fun d_neg :: "double \<Rightarrow> double" where
  "d_neg (Finite a) = Finite (- a)"
| "d_neg PosInf = NegInf"
| "d_neg NegInf = PosInf"
| "d_neg NaN = NaN"

definition on_grid :: "real \<Rightarrow> bool" where
  "on_grid r \<longleftrightarrow> (\<exists>k::int. r = of_int k * 2 powr (- 1074))"

definition squares :: "double \<Rightarrow> bool" where
  "squares d \<longleftrightarrow> d = PosInf \<or> (\<exists>r. d = Finite r \<and> 0 \<le> r \<and> on_grid r)"

subsection \<open>Point in polygon\<close>

text \<open>
  The body of the edge loop of \<open>isInside\<close>, for the edge \<open>(p1, p2)\<close> and the query
  point \<open>(x, y)\<close>. One pass either returns from the function (\<open>Return\<close>), or goes on to
  the next edge with the parity flag it leaves (\<open>Next\<close>). The quotient of the
  intersection formula is written with its divisor checked: a pass that would divide by
  zero is the outcome \<open>DivZero\<close>, which the source does not have as a branch (the
  division of doubles yields an infinity or a NaN there).
\<close>

datatype pass = Return bool | Next bool | DivZero

datatype div_error = DivisionByZero

definition on_horizontal :: "real \<Rightarrow> real \<Rightarrow> Point \<Rightarrow> Point \<Rightarrow> bool" where
  "on_horizontal x y p1 p2 \<longleftrightarrow>
     py p1 = py p2 \<and> py p1 = y \<and> x \<ge> min (px p1) (px p2) \<and> x \<le> max (px p1) (px p2)"

definition on_vertical :: "real \<Rightarrow> real \<Rightarrow> Point \<Rightarrow> Point \<Rightarrow> bool" where
  "on_vertical x y p1 p2 \<longleftrightarrow>
     px p1 = px p2 \<and> px p1 = x \<and> y \<ge> min (py p1) (py p2) \<and> y \<le> max (py p1) (py p2)"

definition crosses :: "real \<Rightarrow> Point \<Rightarrow> Point \<Rightarrow> bool" where
  "crosses y p1 p2 \<longleftrightarrow> (py p1 < y \<and> py p2 \<ge> y) \<or> (py p2 < y \<and> py p1 \<ge> y)"

definition edge_pass :: "real \<Rightarrow> real \<Rightarrow> Point \<Rightarrow> Point \<Rightarrow> bool \<Rightarrow> pass" where
  "edge_pass x y p1 p2 inside =
     (if on_horizontal x y p1 p2 then Return True
      else if on_vertical x y p1 p2 then Return True
      else if crosses y p1 p2 then
        (if py p2 - py p1 = 0 then DivZero
         else
           let x_intersection = (y - py p1) * (px p2 - px p1) / (py p2 - py p1) + px p1
           in if x_intersection > x then Next (\<not> inside) else Next inside)
      else Next inside)"

text \<open>
  The loop \<open>for (int i = 0; i <= num_vertices; ++i)\<close>, with \<open>p2 = vertices[i % num_vertices]\<close>
  and \<open>p1 = p2\<close> at the end of each pass. The index \<open>i mod n\<close> is below \<open>n\<close> whenever the
  loop is entered from \<open>isInside\<close>, where \<open>n\<close> is the vertex count and at least 3. The
  count is a \<^typ>\<open>nat\<close>: the source's conversion of \<open>size()\<close> to \<open>int\<close> is taken to be exact.
\<close>

function isInside_loop ::
  "Point list \<Rightarrow> nat \<Rightarrow> real \<Rightarrow> real \<Rightarrow> nat \<Rightarrow> Point \<Rightarrow> bool \<Rightarrow> div_error + bool" where
  "isInside_loop vs n x y i p1 inside =
     (if i \<le> n then
        (case edge_pass x y p1 (vs ! (i mod n)) inside of
           Return b \<Rightarrow> Inr b
         | DivZero \<Rightarrow> Inl DivisionByZero
         | Next inside' \<Rightarrow> isInside_loop vs n x y (i + 1) (vs ! (i mod n)) inside')
      else Inr inside)"
  by pat_completeness auto
termination
  by (relation "measure (\<lambda>(vs, n, x, y, i, p1, inside). Suc n - i)") auto

declare isInside_loop.simps [simp del]

definition isInside :: "Point \<Rightarrow> Polygon \<Rightarrow> div_error + bool" where
  "isInside p polygon =
     (let num_vertices = length (vertices polygon) in
      if num_vertices < 3 then Inr False
      else isInside_loop (vertices polygon) num_vertices (px p) (py p) 0
             (vertices polygon ! 0) False)"

text \<open>
  The same loop, keeping the outcome of every pass it makes, in order: what the source
  does edge by edge until it returns. \<open>passes_result\<close> reads the value that \<open>isInside\<close>
  returns off such a list (\<open>isInside_passes_result\<close> below).
\<close>

function isInside_loop_passes ::
  "Point list \<Rightarrow> nat \<Rightarrow> real \<Rightarrow> real \<Rightarrow> nat \<Rightarrow> Point \<Rightarrow> bool \<Rightarrow> pass list" where
  "isInside_loop_passes vs n x y i p1 inside =
     (if i \<le> n then
        (case edge_pass x y p1 (vs ! (i mod n)) inside of
           Return b \<Rightarrow> [Return b]
         | DivZero \<Rightarrow> [DivZero]
         | Next inside' \<Rightarrow>
             Next inside' # isInside_loop_passes vs n x y (i + 1) (vs ! (i mod n)) inside')
      else [])"
  by pat_completeness auto
termination
  by (relation "measure (\<lambda>(vs, n, x, y, i, p1, inside). Suc n - i)") auto

declare isInside_loop_passes.simps [simp del]

definition isInside_passes :: "Point \<Rightarrow> Polygon \<Rightarrow> pass list" where
  "isInside_passes p polygon =
     (let num_vertices = length (vertices polygon) in
      if num_vertices < 3 then []
      else isInside_loop_passes (vertices polygon) num_vertices (px p) (py p) 0
             (vertices polygon ! 0) False)"

fun passes_result :: "bool \<Rightarrow> pass list \<Rightarrow> div_error + bool" where
  "passes_result inside [] = Inr inside"
| "passes_result inside (Return b # ps) = Inr b"
| "passes_result inside (DivZero # ps) = Inl DivisionByZero"
| "passes_result inside (Next b # ps) = passes_result b ps"

text \<open>
  The edges of a polygon, as the loop's comment and the data model have them: the edge
  from \<open>vertices[i]\<close> to \<open>vertices[(i + 1) % n]\<close> for every index \<open>i\<close>, the last one
  closing the polygon.
\<close>

definition edges :: "Polygon \<Rightarrow> (Point \<times> Point) list" where
  "edges polygon =
     (let vs = vertices polygon; n = length vs
      in map (\<lambda>i. (vs ! i, vs ! ((i + 1) mod n))) [0..<n])"

text \<open>
  The square and the L shape of \<open>testIsInside\<close>, the same square listed from its bottom
  right corner, and a triangle with no axis-aligned edge.
\<close>

definition square :: Polygon where
  "square = Polygon [Point 0 0, Point 0 4, Point 4 4, Point 4 0]"

definition l_shape :: Polygon where
  "l_shape = Polygon [Point 0 0, Point 0 3, Point 1 3, Point 1 1, Point 3 1, Point 3 0]"

definition square_from_bottom_right :: Polygon where
  "square_from_bottom_right = Polygon [Point 4 0, Point 4 4, Point 0 4, Point 0 0]"

definition triangle :: Polygon where
  "triangle = Polygon [Point 1 1, Point 5 2, Point 3 7]"

section \<open>The robot (TestGcc/robot.h, TestGcc/robot.cpp)\<close>

text \<open>
  \<open>std::atan2(y, x)\<close> is the C library's: the angle of the point \<open>(x, y)\<close>, in radians, in
  the interval from \<open>-\<pi>\<close> (excluded) to \<open>\<pi>\<close>. It is written out by quadrant over
  \<^const>\<open>arctan\<close>; \<open>atan2_polar\<close> and \<open>atan2_range\<close> below show that this is that angle.
  The source's \<open>M_PI\<close> is \<^const>\<open>pi\<close>.
\<close>

definition atan2 :: "real \<Rightarrow> real \<Rightarrow> real" where
  "atan2 y x =
     (if 0 < x then arctan (y / x)
      else if x < 0 then (if 0 \<le> y then arctan (y / x) + pi else arctan (y / x) - pi)
      else if 0 < y then pi / 2
      else if y < 0 then - (pi / 2)
      else 0)"

text \<open>
  \<open>class Robot\<close>, with its fields \<open>current_position_\<close> and \<open>current_orientation_deg_\<close>
  (written without the trailing underscore). The status lines that the constructor and
  \<open>moveTo\<close> print to \<open>std::cout\<close> are not part of the model.
\<close>

record Robot =
  current_position :: Point
  current_orientation_deg :: real

definition new_Robot :: "Point \<Rightarrow> real \<Rightarrow> Robot" where
  "new_Robot start_pos start_orientation_deg =
     \<lparr>current_position = start_pos, current_orientation_deg = start_orientation_deg\<rparr>"

definition moveTo :: "Robot \<Rightarrow> Point \<Rightarrow> Robot" where
  "moveTo robot target_point =
     (let delta_x = px target_point - px (current_position robot);
          delta_y = py target_point - py (current_position robot);
          turned =
            (if delta_x \<noteq> 0 \<or> delta_y \<noteq> 0
             then robot\<lparr>current_orientation_deg := atan2 delta_y delta_x * (180 / pi)\<rparr>
             else robot)
      in turned\<lparr>current_position := target_point\<rparr>)"

definition getPosition :: "Robot \<Rightarrow> Point" where
  "getPosition robot = current_position robot"

definition getOrientation :: "Robot \<Rightarrow> real" where
  "getOrientation robot = current_orientation_deg robot"

section \<open>The sweep path planner (TestGcc/sweep_planner.h)\<close>

text \<open>
  \<open>class SweepPathPlanner\<close> as the header declares it: the fields \<open>area_to_mow_\<close>,
  \<open>cutting_width_\<close> and \<open>waypoints_\<close> (written without the trailing underscore). The
  header declares the constructor, \<open>generatePath\<close> and \<open>getWaypoints\<close>; their bodies are in
  \<open>TestGcc/sweep_planner.cpp\<close>, which is not among the sources at hand, so the three
  are modelled from the specification (sections 4.2 and 7).
\<close>

record SweepPathPlanner =
  area_to_mow :: Polygon
  cutting_width :: real
  waypoints :: "Point list"

datatype planner_error = InvalidWidth

text \<open>
  Modelled from the spec: the constructor of \<open>SweepPathPlanner\<close> (body in the missing
  \<open>sweep_planner.cpp\<close>). "Constructor(area, width): stores area and width. Width must
  be a positive finite scalar; constructing with non-positive width is an
  input-validation error." No path is cached yet.
\<close>

definition new_SweepPathPlanner :: "Polygon \<Rightarrow> real \<Rightarrow> planner_error + SweepPathPlanner" where
  "new_SweepPathPlanner area width =
     (if width \<le> 0 then Inl InvalidWidth
      else Inr \<lparr>area_to_mow = area, cutting_width = width, waypoints = []\<rparr>)"

text \<open>
  Modelled from the spec: step 1 of \<open>generatePath\<close> (body in the missing
  \<open>sweep_planner.cpp\<close>). "Derive the bounding extent: min_x, max_x from all vertex
  x-coordinates; min_y, max_y from all vertex y-coordinates."
\<close>

definition min_x :: "Point list \<Rightarrow> real" where
  "min_x vs = Min (set (map px vs))"

definition max_x :: "Point list \<Rightarrow> real" where
  "max_x vs = Max (set (map px vs))"

definition min_y :: "Point list \<Rightarrow> real" where
  "min_y vs = Min (set (map py vs))"

definition max_y :: "Point list \<Rightarrow> real" where
  "max_y vs = Max (set (map py vs))"

text \<open>
  Modelled from the spec: the two waypoints of one sweep of \<open>generatePath\<close> (body in the
  missing \<open>sweep_planner.cpp\<close>). "Emit two waypoints for this sweep, one at each
  horizontal extreme (min_x, max_x)": left-to-right is \<open>min_x\<close> then \<open>max_x\<close>,
  right-to-left is \<open>max_x\<close> then \<open>min_x\<close>.
\<close>

definition sweep :: "real \<Rightarrow> real \<Rightarrow> real \<Rightarrow> bool \<Rightarrow> Point list" where
  "sweep mnx mxx y left_to_right =
     (if left_to_right then [Point mnx y, Point mxx y] else [Point mxx y, Point mnx y])"

text \<open>
  Modelled from the spec: step 3 of \<open>generatePath\<close> (body in the missing
  \<open>sweep_planner.cpp\<close>). "While current_y \<le> max_y - half: emit two waypoints for this
  sweep, in an x-direction that alternates per successive sweep. Advance current_y +=
  width after each sweep." The loop is entered with a positive width only; the test
  \<open>0 < width\<close> stands for that and makes the recursion well-founded.
\<close>

function sweep_loop :: "real \<Rightarrow> real \<Rightarrow> real \<Rightarrow> real \<Rightarrow> real \<Rightarrow> bool \<Rightarrow> Point list" where
  "sweep_loop mnx mxx mxy width current_y left_to_right =
     (if 0 < width \<and> current_y \<le> mxy - width / 2
      then sweep mnx mxx current_y left_to_right @
           sweep_loop mnx mxx mxy width (current_y + width) (\<not> left_to_right)
      else [])"
  by pat_completeness auto
termination
proof (relation "measure (\<lambda>(mnx, mxx, mxy, width, current_y, left_to_right).
                   nat (\<lfloor>(mxy - width / 2 - current_y) / width\<rfloor> + 1))", goal_cases)
  case 1
  show ?case by simp
next
  case (2 mnx mxx mxy width current_y left_to_right)
  then have w: "0 < width" and le: "0 \<le> (mxy - width / 2 - current_y) / width" by simp_all
  have "(mxy - width / 2 - (current_y + width)) / width
          = (mxy - width / 2 - current_y) / width - 1"
    using w by (simp add: field_simps)
  moreover have "0 \<le> \<lfloor>(mxy - width / 2 - current_y) / width\<rfloor>" using le by simp
  ultimately show ?case by simp
qed

declare sweep_loop.simps [simp del]

text \<open>
  Modelled from the spec: \<open>generatePath\<close> (body in the missing \<open>sweep_planner.cpp\<close>),
  steps 1 to 6 of section 4.2. A width that is not positive is the error InvalidWidth
  of section 7, here as well as at construction ("implementers choose whether to fail
  at construction or at generate time, but must fail before producing a waypoint
  sequence"). Fewer than 3 vertices, or \<open>max_y \<le> min_y\<close>: the empty sequence (step 5).
  Else the first sweep line is at \<open>min_y + half\<close> (step 2) and the loop runs (step 3);
  when "no sweep line satisfies the loop condition on the first iteration", one sweep at
  \<open>(min_y + max_y) / 2\<close>, left-to-right (step 4). The sequence is cached and
  returned (step 6): the result is the path and the planner with its \<open>waypoints\<close> set.
\<close>

definition generatePath ::
  "SweepPathPlanner \<Rightarrow> planner_error + Point list \<times> SweepPathPlanner" where
  "generatePath planner =
     (let vs = vertices (area_to_mow planner);
          width = cutting_width planner;
          half = width / 2
      in if width \<le> 0 then Inl InvalidWidth
         else
           let path =
             (if length vs < 3 \<or> max_y vs \<le> min_y vs then []
              else if min_y vs + half \<le> max_y vs - half
              then sweep_loop (min_x vs) (max_x vs) (max_y vs) width (min_y vs + half) True
              else sweep (min_x vs) (max_x vs) ((min_y vs + max_y vs) / 2) True)
           in Inr (path, planner\<lparr>waypoints := path\<rparr>))"

text \<open>
  Modelled from the spec: \<open>getWaypoints\<close> (body in the missing \<open>sweep_planner.cpp\<close>).
  "Returns the sequence from the most recent generate call (or empty if never called)."
\<close>

definition getWaypoints :: "SweepPathPlanner \<Rightarrow> Point list" where
  "getWaypoints planner = waypoints planner"

text \<open>
  What the callers do (\<open>testSweepPathPlannerRectangle\<close>, and \<open>main\<close> of the simulation):
  \<open>SweepPathPlanner planner(area, width); path = planner.generatePath();\<close>.
\<close>

definition plan :: "Polygon \<Rightarrow> real \<Rightarrow> planner_error + Point list" where
  "plan area width =
     (case new_SweepPathPlanner area width of
        Inl e \<Rightarrow> Inl e
      | Inr planner \<Rightarrow>
          (case generatePath planner of Inl e \<Rightarrow> Inl e | Inr (path, planner') \<Rightarrow> Inr path))"

text \<open>
  The sweep line number \<open>k\<close> (from 0) as the claims describe it: at
  \<open>y = min_y + width / 2 + k * width\<close>, left-to-right when \<open>k\<close> is even and right-to-left
  when \<open>k\<close> is odd.
\<close>

definition sweep_line :: "real \<Rightarrow> real \<Rightarrow> real \<Rightarrow> real \<Rightarrow> nat \<Rightarrow> Point list" where
  "sweep_line mnx mxx mny width k =
     (let y = mny + width / 2 + real k * width
      in if even k then [Point mnx y, Point mxx y] else [Point mxx y, Point mnx y])"

text \<open>
  The rectangles of the tests and of the simulation: the corners \<open>(x0, y0)\<close>, \<open>(x0, y1)\<close>,
  \<open>(x1, y1)\<close>, \<open>(x1, y0)\<close> in this order.
\<close>

definition rectangle :: "real \<Rightarrow> real \<Rightarrow> real \<Rightarrow> real \<Rightarrow> Polygon" where
  "rectangle x0 y0 x1 y1 = Polygon [Point x0 y0, Point x0 y1, Point x1 y1, Point x1 y0]"

section \<open>Properties of the geometry\<close>

text \<open>
  C6: for every polygon with fewer than 3 vertices and every point, \<open>isInside\<close> returns
  false.
\<close>

theorem isInside_degenerate:
  assumes "length (vertices polygon) < 3"
  shows "isInside p polygon = Inr False"
proof -
  have "isInside p polygon =
          (if length (vertices polygon) < 3 then Inr False
           else isInside_loop (vertices polygon) (length (vertices polygon)) (px p) (py p) 0
                  (vertices polygon ! 0) False)"
    by (simp add: isInside_def Let_def)
  with assms show ?thesis by simp
qed

theorem isInside_degenerate_witness:
  "length (vertices (Polygon [Point 0 0, Point 2 0])) < 3 \<and>
   isInside (Point 1 0) (Polygon [Point 0 0, Point 2 0]) = Inr False"
  using isInside_degenerate [of "Polygon [Point 0 0, Point 2 0]" "Point 1 0"] by simp

subsection \<open>The arithmetic of doubles\<close>

lemma rne_of_int [simp]: "rne (of_int k) = k"
  by (simp add: rne_def)

lemma rne_minus: "rne (- y) = - rne y"
proof (cases "y = of_int \<lfloor>y\<rfloor>")
  case True
  then obtain k where "y = of_int k" ..
  then show ?thesis by (simp flip: of_int_minus)
next
  case False
  then have fl: "\<lfloor>- y\<rfloor> = - \<lfloor>y\<rfloor> - 1"
    by (metis ceiling_altdef ceiling_def minus_diff_eq minus_minus uminus_add_conv_diff)
  show ?thesis
    unfolding rne_def Let_def fl by (auto simp: algebra_simps)
qed

lemma rne_cases:
  obtains f where "f = \<lfloor>y\<rfloor>" "of_int f \<le> y" "y < of_int f + 1"
    "rne y = (if y - of_int f < 1 / 2 then f else if 1 / 2 < y - of_int f then f + 1
              else if even f then f else f + 1)"
proof
  show "\<lfloor>y\<rfloor> = \<lfloor>y\<rfloor>" ..
  show "of_int \<lfloor>y\<rfloor> \<le> y" by simp
  show "y < of_int \<lfloor>y\<rfloor> + 1" by simp
  show "rne y = (if y - of_int \<lfloor>y\<rfloor> < 1 / 2 then \<lfloor>y\<rfloor>
      else if 1 / 2 < y - of_int \<lfloor>y\<rfloor> then \<lfloor>y\<rfloor> + 1
      else if even \<lfloor>y\<rfloor> then \<lfloor>y\<rfloor> else \<lfloor>y\<rfloor> + 1)"
    by (simp add: rne_def Let_def)
qed

lemma rne_zero_iff: "rne y = 0 \<longleftrightarrow> \<bar>y\<bar> \<le> 1 / 2"
proof
  obtain f where f: "of_int f \<le> y" "y < of_int f + 1"
    and r: "rne y = (if y - of_int f < 1 / 2 then f else if 1 / 2 < y - of_int f then f + 1
              else if even f then f else f + 1)"
    by (rule rne_cases)
  {
    assume "rne y = 0"
    with r have "f = 0 \<and> y - of_int f \<le> 1 / 2 \<or> f = - 1 \<and> 1 / 2 \<le> y - of_int f"
      by (auto split: if_splits)
    with f show "\<bar>y\<bar> \<le> 1 / 2" by auto
  next
    assume a: "\<bar>y\<bar> \<le> 1 / 2"
    have "real_of_int f < 1" "- 2 < real_of_int f" using a f by linarith+
    then have "f < 1" "- 2 < f" by linarith+
    then have "f = 0 \<or> f = - 1" by linarith
    then show "rne y = 0"
    proof
      assume "f = 0" with a f show ?thesis unfolding r by auto
    next
      assume "f = - 1" with a f show ?thesis unfolding r by auto
    qed
  }
qed

lemma rne_nonneg: "0 \<le> y \<Longrightarrow> 0 \<le> rne y"
proof -
  assume y: "0 \<le> y"
  obtain f where f: "f = \<lfloor>y\<rfloor>"
    and r: "rne y = (if y - of_int f < 1 / 2 then f else if 1 / 2 < y - of_int f then f + 1
              else if even f then f else f + 1)"
    by (rule rne_cases)
  from y f have "0 \<le> f" by simp
  then show ?thesis unfolding r by auto
qed

lemma quantum_pos: "0 < quantum x"
  by (simp add: quantum_def)

lemma quantum_abs [simp]: "quantum (- x) = quantum x"
  by (simp add: quantum_def)

lemma round_double_0 [simp]: "round_double 0 = Finite 0"
  by (simp add: round_double_def)

lemma round_double_minus: "round_double (- x) = d_neg (round_double x)"
  by (simp add: round_double_def Let_def rne_minus)

lemma floor_log2_bounds:
  assumes "x \<noteq> 0"
  shows "2 powr of_int \<lfloor>log 2 \<bar>x\<bar>\<rfloor> \<le> \<bar>x\<bar>" and "\<bar>x\<bar> < 2 powr of_int (\<lfloor>log 2 \<bar>x\<bar>\<rfloor> + 1)"
  using floor_log_eq_powr_iff [of "\<bar>x\<bar>" 2 "\<lfloor>log 2 \<bar>x\<bar>\<rfloor>"] assms by simp_all

text \<open>Underflow: exactly the reals of magnitude at most 2^-1075 round to zero.\<close>

lemma round_double_zero_iff: "round_double x = Finite 0 \<longleftrightarrow> \<bar>x\<bar> \<le> 2 powr (- 1075)"
proof (cases "x = 0")
  case True
  then show ?thesis by simp
next
  case False
  let ?e = "\<lfloor>log 2 \<bar>x\<bar>\<rfloor>"
  have q: "0 < quantum x" by (rule quantum_pos)
  have half: "quantum x / 2 = 2 powr of_int (max ?e (- 1022) - 53)"
    by (simp add: quantum_def powr_diff algebra_simps)
  have zero: "round_double x = Finite 0 \<longleftrightarrow> \<bar>x\<bar> \<le> quantum x / 2"
  proof -
    have "round_double x = Finite 0 \<longleftrightarrow> rne (x / quantum x) = 0"
      using False q by (auto simp: round_double_def Let_def)
    also have "\<dots> \<longleftrightarrow> \<bar>x\<bar> / quantum x \<le> 1 / 2"
      using q by (simp add: rne_zero_iff)
    also have "\<dots> \<longleftrightarrow> \<bar>x\<bar> \<le> quantum x / 2"
      using q by (simp add: field_simps)
    finally show ?thesis .
  qed
  show ?thesis
  proof (cases "- 1022 \<le> ?e")
    case True
    then have "max ?e (- 1022) = ?e" by (rule max_absorb1)
    then have "quantum x / 2 = 2 powr of_int (?e - 53)" by (simp only: half)
    also have "\<dots> < 2 powr of_int ?e" by simp
    also have "\<dots> \<le> \<bar>x\<bar>" using False by (rule floor_log2_bounds)
    finally have big: "quantum x / 2 < \<bar>x\<bar>" .
    have "- 1075 < real_of_int ?e" using True by linarith
    then have "(2::real) powr (- 1075) < 2 powr of_int ?e" by simp
    also have "\<dots> \<le> \<bar>x\<bar>" using False by (rule floor_log2_bounds)
    finally show ?thesis using big zero by simp
  next
    case False
    then have "max ?e (- 1022) = - 1022" by (intro max_absorb2) linarith
    then have "quantum x / 2 = 2 powr (- 1075)" by (simp add: half)
    with zero show ?thesis by simp
  qed
qed

lemma quantum_grid: "\<exists>j::int. quantum x = of_int j * 2 powr (- 1074)"
proof -
  let ?m = "max \<lfloor>log 2 \<bar>x\<bar>\<rfloor> (- 1022)"
  have m: "0 \<le> ?m + 1022" by simp
  then obtain n where n: "?m + 1022 = int n" by (rule nonneg_int_cases)
  have "of_int (?m - 52) = real_of_int (?m + 1022) + (- 1074)" by simp
  then have "quantum x = 2 powr real_of_int (?m + 1022) * 2 powr (- 1074)"
    unfolding quantum_def by (simp only: powr_add)
  also have "real_of_int (?m + 1022) = real n" by (simp only: n of_int_of_nat_eq)
  also have "2 powr real n = (2::real) ^ n" by (simp add: powr_realpow)
  also have "\<dots> = of_int (2 ^ n)" by simp
  finally show ?thesis by blast
qed

lemma round_double_grid:
  assumes "round_double x = Finite r"
  shows "on_grid r"
proof (cases "x = 0")
  case True
  with assms have "r = 0" by simp
  then show ?thesis by (simp add: on_grid_def)
next
  case False
  obtain j :: int where j: "quantum x = of_int j * 2 powr (- 1074)"
    using quantum_grid by blast
  from assms False have "r = of_int (rne (x / quantum x)) * quantum x"
    by (auto simp: round_double_def Let_def split: if_splits)
  then have "r = of_int (rne (x / quantum x) * j) * 2 powr (- 1074)"
    by (simp add: j)
  then show ?thesis unfolding on_grid_def by blast
qed

lemma grid_small_zero:
  assumes "on_grid r" and "0 \<le> r" and "r \<le> 2 powr (- 1075)"
  shows "r = 0"
proof -
  from assms(1) obtain k :: int where k: "r = of_int k * 2 powr (- 1074)"
    unfolding on_grid_def by blast
  have lt: "(2::real) powr (- 1075) < 2 powr (- 1074)" by simp
  have "k < 1"
  proof (rule ccontr)
    assume "\<not> k < 1"
    then have "1 \<le> real_of_int k" by simp
    then have "1 * 2 powr (- 1074) \<le> of_int k * (2::real) powr (- 1074)"
      by (intro mult_right_mono) simp_all
    with k assms(3) lt show False by simp
  qed
  moreover have "0 \<le> k"
  proof (rule ccontr)
    assume "\<not> 0 \<le> k"
    then have "real_of_int k < 0" by simp
    then have "of_int k * (2::real) powr (- 1074) < 0"
      by (intro mult_neg_pos) simp_all
    with k assms(2) show False by simp
  qed
  ultimately have "k = 0" by simp
  with k show ?thesis by simp
qed

lemma round_double_nonneg:
  assumes "0 \<le> x"
  shows "round_double x = PosInf \<or> (\<exists>r. round_double x = Finite r \<and> 0 \<le> r \<and> on_grid r)"
proof (cases "round_double x")
  case (Finite r)
  have "0 \<le> r"
  proof (cases "x = 0")
    case True with Finite show ?thesis by simp
  next
    case False
    with Finite have r: "r = of_int (rne (x / quantum x)) * quantum x"
      by (auto simp: round_double_def Let_def split: if_splits)
    have "0 \<le> rne (x / quantum x)"
      using assms quantum_pos [of x] by (intro rne_nonneg) simp
    then show ?thesis unfolding r using quantum_pos [of x] by simp
  qed
  with Finite round_double_grid [OF Finite] show ?thesis by simp
next
  case PosInf then show ?thesis by simp
next
  case NegInf
  with assms show ?thesis by (auto simp: round_double_def Let_def split: if_splits)
next
  case NaN
  then show ?thesis by (auto simp: round_double_def Let_def split: if_splits)
qed

lemma round_double_not_NaN [simp]: "round_double x \<noteq> NaN"
  by (auto simp: round_double_def Let_def)

lemma round_double_power2:
  assumes "- 1022 \<le> k"
  shows "round_double (2 powr of_int k) =
           (if 1024 \<le> k then PosInf else Finite (2 powr of_int k))"
proof -
  let ?x = "(2::real) powr of_int k"
  have fl: "\<lfloor>log 2 \<bar>?x\<bar>\<rfloor> = k" by simp
  have q: "quantum ?x = 2 powr of_int (k - 52)"
    using assms by (simp add: quantum_def fl)
  have int: "(2::real) powr 52 = of_int (2 ^ 52)"
    using powr_realpow [of "2::real" 52] by simp
  have ratio: "?x / quantum ?x = 2 powr 52"
    unfolding q by (simp add: powr_diff)
  have n: "rne (?x / quantum ?x) = 2 ^ 52"
    by (simp only: ratio int rne_of_int)
  have "of_int (rne (?x / quantum ?x)) * quantum ?x = of_int (2 ^ 52) * quantum ?x"
    by (simp only: n)
  also have "\<dots> = 2 powr 52 * 2 powr of_int (k - 52)"
    by (simp only: q int [symmetric])
  also have "\<dots> = 2 powr (52 + of_int (k - 52))"
    by (simp only: powr_add)
  also have "\<dots> = ?x" by simp
  finally have r: "of_int (rne (?x / quantum ?x)) * quantum ?x = ?x" .
  have big: "(2::real) powr 1024 \<le> ?x \<longleftrightarrow> 1024 \<le> k"
  proof -
    have "(2::real) powr 1024 \<le> 2 powr of_int k \<longleftrightarrow> 1024 \<le> real_of_int k"
      by (rule powr_le_cancel_iff) simp
    then show ?thesis by simp
  qed
  have "?x \<noteq> 0" "0 < ?x" by simp_all
  then show ?thesis
    unfolding round_double_def Let_def r using big by simp
qed

text \<open>
  An integer of magnitude below \<open>2^53\<close> is a double: rounding leaves it as it is.
\<close>

lemma round_double_int:
  assumes n0: "n \<noteq> 0" and small: "\<bar>n\<bar> < 2 ^ 53"
  shows "round_double (of_int n) = Finite (of_int n)"
proof -
  let ?x = "real_of_int n"
  let ?e = "\<lfloor>log 2 \<bar>?x\<bar>\<rfloor>"
  have x1: "1 \<le> \<bar>?x\<bar>" using n0 by (simp flip: of_int_abs)
  have x2: "\<bar>?x\<bar> < 2 powr 53"
  proof -
    have "real_of_int \<bar>n\<bar> < real_of_int (2 ^ 53)" using small by (simp only: of_int_less_iff)
    moreover have "real_of_int (2 ^ 53) = 2 powr 53"
      using powr_realpow [of "2::real" 53] by simp
    ultimately show ?thesis by simp
  qed
  have "0 \<le> log 2 \<bar>?x\<bar>" using x1 by simp
  then have e0: "0 \<le> ?e" by simp
  have "log 2 \<bar>?x\<bar> < 53" using x1 x2 by (simp add: log_less_iff)
  then have "?e < 53" by (simp add: floor_less_iff)
  then have e52: "0 \<le> 52 - ?e" by simp
  then obtain m where m: "52 - ?e = int m" by (rule nonneg_int_cases)
  have mx: "max ?e (- 1022) = ?e" using e0 by simp
  have q: "quantum ?x = 2 powr (- real m)"
  proof -
    have "of_int (?e - 52) = - real_of_int (52 - ?e)" by simp
    also have "\<dots> = - real m" by (simp only: m of_int_of_nat_eq)
    finally show ?thesis unfolding quantum_def mx by simp
  qed
  have qi: "quantum ?x = inverse (2 ^ m)"
    unfolding q by (simp add: powr_minus powr_realpow)
  have ratio: "?x / quantum ?x = of_int (n * 2 ^ m)"
    unfolding qi by (simp add: field_simps)
  have r: "of_int (rne (?x / quantum ?x)) * quantum ?x = ?x"
    unfolding ratio rne_of_int unfolding qi by (simp add: field_simps)
  have "(2::real) powr 53 \<le> 2 powr 1024" by (rule powr_mono) simp_all
  with x2 have "\<not> 2 powr 1024 \<le> \<bar>?x\<bar>" by linarith
  moreover have "?x \<noteq> 0" using n0 by simp
  ultimately show ?thesis
    unfolding round_double_def Let_def r by simp
qed

lemma round_double_numeral [simp]:
  "numeral k < (2::int) ^ 53 \<Longrightarrow> round_double (numeral k) = Finite (numeral k)"
  using round_double_int [of "numeral k"] by simp

lemma d_sub_swap: "d_sub b a = d_neg (d_sub a b)"
  using round_double_minus [of "a - b"] by (simp add: d_sub_def)

lemma d_pow2_neg: "d_pow2 (d_neg v) = d_pow2 v"
  by (cases v) simp_all

lemma d_sub_not_NaN: "d_sub a b \<noteq> NaN"
  by (simp add: d_sub_def)

lemma d_pow2_squares: "v \<noteq> NaN \<Longrightarrow> squares (d_pow2 v)"
  using round_double_nonneg [of "a * a" for a]
  by (cases v) (auto simp: squares_def)

lemma d_add_squares:
  assumes "squares u" and "squares v"
  shows "squares (d_add u v)" and "d_add u v = Finite 0 \<longleftrightarrow> u = Finite 0 \<and> v = Finite 0"
proof -
  show "squares (d_add u v)"
  proof (cases "\<exists>a b. u = Finite a \<and> v = Finite b")
    case False
    with assms show ?thesis by (auto simp: squares_def)
  next
    case True
    then obtain a b where ab: "u = Finite a" "v = Finite b" by blast
    with assms have "0 \<le> a + b" by (auto simp: squares_def)
    then have "squares (round_double (a + b))"
      unfolding squares_def by (rule round_double_nonneg)
    with ab show ?thesis by simp
  qed
  show "d_add u v = Finite 0 \<longleftrightarrow> u = Finite 0 \<and> v = Finite 0"
  proof (cases "\<exists>a b. u = Finite a \<and> v = Finite b")
    case False
    with assms show ?thesis by (auto simp: squares_def)
  next
    case True
    then obtain a b where ab: "u = Finite a" "v = Finite b" by blast
    with assms have g: "0 \<le> a" "on_grid a" "0 \<le> b" "on_grid b"
      by (auto simp: squares_def)
    have "round_double (a + b) = Finite 0 \<longleftrightarrow> a = 0 \<and> b = 0"
    proof
      assume "round_double (a + b) = Finite 0"
      then have "\<bar>a + b\<bar> \<le> 2 powr (- 1075)" by (simp only: round_double_zero_iff)
      with g have "a \<le> 2 powr (- 1075)" "b \<le> 2 powr (- 1075)" by linarith+
      with g show "a = 0 \<and> b = 0" by (simp add: grid_small_zero)
    next
      assume "a = 0 \<and> b = 0"
      then show "round_double (a + b) = Finite 0" by simp
    qed
    with ab show ?thesis by simp
  qed
qed

lemma d_sqrt_squares:
  assumes "squares s"
  shows "d_ge0 (d_sqrt s)" and "d_sqrt s = Finite 0 \<longleftrightarrow> s = Finite 0"
proof -
  show "d_ge0 (d_sqrt s)"
    using assms round_double_nonneg [of "sqrt r" for r]
    by (auto simp: squares_def not_less) (metis d_ge0.simps(1,2) real_sqrt_ge_zero)
  show "d_sqrt s = Finite 0 \<longleftrightarrow> s = Finite 0"
  proof (cases s)
    case (Finite r)
    with assms have g: "0 \<le> r" "on_grid r" by (auto simp: squares_def)
    have "round_double (sqrt r) = Finite 0 \<longleftrightarrow> r = 0"
    proof
      assume "round_double (sqrt r) = Finite 0"
      then have "\<bar>sqrt r\<bar> \<le> 2 powr (- 1075)" by (simp only: round_double_zero_iff)
      then have small: "sqrt r \<le> 2 powr (- 1075)" using g by simp
      have "(2::real) powr (- 1075) \<le> 2 powr 0" by (rule powr_mono) simp_all
      then have "(2::real) powr (- 1075) \<le> 1" by simp
      with small have le1: "sqrt r \<le> 1" by (rule order_trans)
      have nn: "0 \<le> sqrt r" using g by simp
      have "r = sqrt r * sqrt r" using g by simp
      also have "\<dots> \<le> sqrt r * 1" using le1 nn by (rule mult_left_mono)
      finally have "r \<le> sqrt r" by simp
      with small have "r \<le> 2 powr (- 1075)" by linarith
      with g show "r = 0" by (simp add: grid_small_zero)
    next
      assume "r = 0"
      then show "round_double (sqrt r) = Finite 0" by simp
    qed
    with Finite g show ?thesis by simp
  qed (use assms in \<open>auto simp: squares_def\<close>)
qed

lemma d_pow2_zero_iff:
  "d_pow2 v = Finite 0 \<longleftrightarrow> (\<exists>a. v = Finite a \<and> a * a \<le> 2 powr (- 1075))"
  by (cases v) (simp_all add: round_double_zero_iff)

text \<open>The assertions of \<open>testDistance\<close> hold of the model, exactly.\<close>

lemma testDistance:
  "distance (Point 0 0) (Point 3 4) = Finite 5" "distance (Point 0 0) (Point 0 0) = Finite 0"
  "distance (Point 3 4) (Point 0 0) = Finite 5" "distance (Point 0 0) (Point (- 1) 0) = Finite 1"
  "distance (Point 0 0) (Point 0 (- 1)) = Finite 1"
  "distance (Point 1 1) (Point 1 5) = Finite 4" "distance (Point 1 1) (Point 5 1) = Finite 4"
proof -
  have "sqrt 25 = sqrt (5\<^sup>2)" and "sqrt 16 = sqrt (4\<^sup>2)" by simp_all
  then have s: "sqrt 25 = 5" "sqrt 16 = 4" by (simp_all only: real_sqrt_abs abs_numeral)
  have m: "round_double (- 1) = Finite (- 1)" "round_double (- 3) = Finite (- 3)"
    "round_double (- 4) = Finite (- 4)" "round_double 1 = Finite 1"
    using round_double_int [of "- 1"] round_double_int [of "- 3"] round_double_int [of "- 4"]
      round_double_int [of 1]
    by simp_all
  show "distance (Point 0 0) (Point 3 4) = Finite 5"
    "distance (Point 0 0) (Point 0 0) = Finite 0"
    "distance (Point 3 4) (Point 0 0) = Finite 5"
    "distance (Point 0 0) (Point (- 1) 0) = Finite 1"
    "distance (Point 0 0) (Point 0 (- 1)) = Finite 1"
    "distance (Point 1 1) (Point 1 5) = Finite 4"
    "distance (Point 1 1) (Point 5 1) = Finite 4"
    by (simp_all add: distance_def d_sub_def s m)
qed

text \<open>Where the square of a difference overflows, the distance is the positive infinity.\<close>

lemma distance_overflow: "distance (Point 0 0) (Point (2 powr 600) 0) = PosInf"
proof -
  have r: "round_double (2 powr 600) = Finite (2 powr 600)"
    using round_double_power2 [of 600] by simp
  have u: "round_double (2 powr 600 * 2 powr 600) = PosInf"
    using round_double_power2 [of 1200] by (simp flip: powr_add)
  from r u show ?thesis by (simp add: distance_def d_sub_def)
qed

subsection \<open>One pass of the edge loop\<close>

lemma edge_pass_boundary:
  "on_horizontal x y p1 p2 \<or> on_vertical x y p1 p2 \<Longrightarrow>
   edge_pass x y p1 p2 inside = Return True"
  by (auto simp: edge_pass_def)

lemma crosses_divisor: "crosses y p1 p2 \<Longrightarrow> py p2 - py p1 \<noteq> 0"
  by (auto simp: crosses_def)

lemma edge_pass_no_DivZero: "edge_pass x y p1 p2 inside \<noteq> DivZero"
  unfolding edge_pass_def crosses_def by (auto simp: Let_def)

lemma edge_pass_cases:
  "edge_pass x y p1 p2 inside = Return True \<or> (\<exists>b. edge_pass x y p1 p2 inside = Next b)"
  unfolding edge_pass_def crosses_def by (auto simp: Let_def)

lemma edge_pass_horizontal:
  "edge_pass x y (Point a h) (Point b h) inside =
     (if on_horizontal x y (Point a h) (Point b h) then Return True else Next inside)"
  unfolding edge_pass_def crosses_def on_horizontal_def on_vertical_def by auto

subsection \<open>The loop\<close>

lemma isInside_loop_no_DivZero: "isInside_loop vs n x y i p1 inside \<noteq> Inl DivisionByZero"
proof (induction vs n x y i p1 inside rule: isInside_loop.induct)
  case (1 vs n x y i p1 inside)
  show ?case
  proof (cases "i \<le> n")
    case False
    then show ?thesis by (simp add: isInside_loop.simps [of vs n x y i])
  next
    case True
    show ?thesis
    proof (cases "edge_pass x y p1 (vs ! (i mod n)) inside")
      case (Return b)
      with True show ?thesis by (simp add: isInside_loop.simps [of vs n x y i])
    next
      case (Next b)
      with True 1 show ?thesis by (simp add: isInside_loop.simps [of vs n x y i])
    next
      case DivZero
      then show ?thesis by (simp add: edge_pass_no_DivZero)
    qed
  qed
qed

text \<open>
  From pass \<open>i \<ge> 1\<close> on, \<open>p1\<close> is \<open>vertices[i - 1]\<close>. When the edge of a later pass \<open>k\<close>
  holds the query point, every pass before it either returns true itself or goes on, so
  the loop returns true whatever the parity flag is.
\<close>

lemma isInside_loop_reaches_edge:
  assumes k: "k \<le> n"
    and on: "on_horizontal x y (vs ! (k - 1)) (vs ! (k mod n)) \<or>
             on_vertical x y (vs ! (k - 1)) (vs ! (k mod n))"
  shows "1 \<le> i \<Longrightarrow> i \<le> k \<Longrightarrow> isInside_loop vs n x y i (vs ! (i - 1)) inside = Inr True"
proof (induction "k - i" arbitrary: i inside)
  case 0
  then have "i = k" by simp
  with k on show ?case
    by (simp add: isInside_loop.simps [of vs n x y k] edge_pass_boundary)
next
  case (Suc d)
  then have lt: "i < k" and le: "i \<le> n" and md: "i mod n = i" using k by auto
  from edge_pass_cases [of x y "vs ! (i - 1)" "vs ! i" inside] show ?case
  proof
    assume "edge_pass x y (vs ! (i - 1)) (vs ! i) inside = Return True"
    with le md show ?thesis by (simp add: isInside_loop.simps [of vs n x y i])
  next
    assume "\<exists>b. edge_pass x y (vs ! (i - 1)) (vs ! i) inside = Next b"
    then obtain b where b: "edge_pass x y (vs ! (i - 1)) (vs ! i) inside = Next b" ..
    have "isInside_loop vs n x y (Suc i) (vs ! (Suc i - 1)) b = Inr True"
      using Suc.hyps(1) [of "Suc i" b] Suc.hyps(2) lt by simp
    with b le md show ?thesis by (simp add: isInside_loop.simps [of vs n x y i])
  qed
qed

lemma isInside_edge_index:
  assumes n: "3 \<le> length vs" and j: "j < length vs"
    and on: "on_horizontal x y (vs ! j) (vs ! (Suc j mod length vs)) \<or>
             on_vertical x y (vs ! j) (vs ! (Suc j mod length vs))"
  shows "isInside (Point x y) (Polygon vs) = Inr True"
proof -
  let ?n = "length vs"
  have rest: "isInside_loop vs ?n x y 1 (vs ! (1 - 1)) b = Inr True" for b
    using isInside_loop_reaches_edge [of "Suc j" ?n x y vs 1 b] j on by simp
  have first: "isInside_loop vs ?n x y 0 (vs ! 0) False = Inr True"
    using edge_pass_cases [of x y "vs ! 0" "vs ! 0" False] rest
    by (auto simp: isInside_loop.simps [of vs ?n x y 0])
  with n show ?thesis by (simp add: isInside_def)
qed

lemma in_edges:
  "(a, b) \<in> set (edges polygon) \<longleftrightarrow>
     (\<exists>i < length (vertices polygon). a = vertices polygon ! i \<and>
        b = vertices polygon ! (Suc i mod length (vertices polygon)))"
  by (auto simp: edges_def Let_def)

text \<open>The value of \<open>isInside\<close> is the one its passes end with.\<close>

lemma isInside_loop_passes_result:
  "isInside_loop vs n x y i p1 inside =
     passes_result inside (isInside_loop_passes vs n x y i p1 inside)"
proof (induction vs n x y i p1 inside rule: isInside_loop.induct)
  case (1 vs n x y i p1 inside)
  show ?case
  proof (cases "i \<le> n")
    case False
    then show ?thesis
      by (simp add: isInside_loop.simps [of vs n x y i] isInside_loop_passes.simps [of vs n x y i])
  next
    case True
    show ?thesis
    proof (cases "edge_pass x y p1 (vs ! (i mod n)) inside")
      case (Next b)
      with True 1 show ?thesis
        by (simp add: isInside_loop.simps [of vs n x y i] isInside_loop_passes.simps [of vs n x y i])
    next
      case (Return b)
      with True show ?thesis
        by (simp add: isInside_loop.simps [of vs n x y i] isInside_loop_passes.simps [of vs n x y i])
    next
      case DivZero
      with True show ?thesis
        by (simp add: isInside_loop.simps [of vs n x y i] isInside_loop_passes.simps [of vs n x y i])
    qed
  qed
qed

lemma isInside_passes_result:
  "isInside p polygon = passes_result False (isInside_passes p polygon)"
  by (simp add: isInside_def isInside_passes_def Let_def isInside_loop_passes_result)

lemmas isInside_eval =
  isInside_def isInside_loop.simps edge_pass_def on_horizontal_def on_vertical_def crosses_def

lemmas isInside_passes_eval =
  isInside_passes_def isInside_loop_passes.simps edge_pass_def on_horizontal_def
  on_vertical_def crosses_def

text \<open>The assertions of \<open>testIsInside\<close> hold of the model.\<close>

lemma testIsInside_square:
  "isInside (Point 2 2) square = Inr True" "isInside (Point 1 3) square = Inr True"
  "isInside (Point 5 2) square = Inr False" "isInside (Point 2 5) square = Inr False"
  "isInside (Point (- 1) 2) square = Inr False" "isInside (Point 2 (- 1)) square = Inr False"
  "isInside (Point 0 2) square = Inr True" "isInside (Point 2 0) square = Inr True"
  "isInside (Point 4 2) square = Inr True" "isInside (Point 2 4) square = Inr True"
  "isInside (Point 0 0) square = Inr True" "isInside (Point 4 4) square = Inr True"
  "isInside (Point 100 100) square = Inr False"
  by (simp_all add: square_def isInside_eval)

lemma testIsInside_l_shape:
  "isInside (Point (1/2) 2) l_shape = Inr True" "isInside (Point 2 (1/2)) l_shape = Inr True"
  "isInside (Point (1/2) (1/2)) l_shape = Inr True"
  "isInside (Point (3/2) (3/2)) l_shape = Inr False"
  "isInside (Point 1 2) l_shape = Inr True" "isInside (Point 2 1) l_shape = Inr True"
  by (simp_all add: l_shape_def isInside_eval)

subsection \<open>The claims on \<open>distance\<close> and \<open>isInside\<close>\<close>

text \<open>
  C8, as amended: for all points \<open>p\<close> and \<open>q\<close>, \<open>distance p q\<close> equals \<open>distance q p\<close>,
  \<open>distance p p\<close> is 0, \<open>distance p q\<close> is not negative (it may be the positive
  infinity), and \<open>distance p q\<close> is 0 if \<open>p\<close> and \<open>q\<close> have equal coordinates; it is 0
  exactly when the squares of both rounded coordinate differences underflow, which is
  when they are at most \<open>2^-1075\<close>.
\<close>

theorem distance_double_properties:
  "distance p q = distance q p \<and> distance p p = Finite 0 \<and> d_ge0 (distance p q) \<and>
   (distance p q = Finite 0 \<longleftrightarrow>
      (\<exists>a b. d_sub (px q) (px p) = Finite a \<and> d_sub (py q) (py p) = Finite b \<and>
             a * a \<le> 2 powr (- 1075) \<and> b * b \<le> 2 powr (- 1075)))"
proof -
  let ?sx = "d_pow2 (d_sub (px q) (px p))" and ?sy = "d_pow2 (d_sub (py q) (py p))"
  have sq: "squares ?sx" "squares ?sy"
    by (simp_all add: d_pow2_squares d_sub_not_NaN)
  have sum: "squares (d_add ?sx ?sy)" using sq by (rule d_add_squares)
  have "distance p q = distance q p"
    unfolding distance_def
    by (simp add: d_sub_swap [of "px p" "px q"] d_sub_swap [of "py p" "py q"] d_pow2_neg)
  moreover have "distance p p = Finite 0"
    by (simp add: distance_def d_sub_def)
  moreover have "d_ge0 (distance p q)"
    unfolding distance_def using sum by (rule d_sqrt_squares)
  moreover have "distance p q = Finite 0 \<longleftrightarrow> ?sx = Finite 0 \<and> ?sy = Finite 0"
    unfolding distance_def
    by (simp only: d_sqrt_squares(2) [OF sum] d_add_squares(2) [OF sq])
  moreover have "?sx = Finite 0 \<and> ?sy = Finite 0 \<longleftrightarrow>
      (\<exists>a b. d_sub (px q) (px p) = Finite a \<and> d_sub (py q) (py p) = Finite b \<and>
             a * a \<le> 2 powr (- 1075) \<and> b * b \<le> 2 powr (- 1075))"
    unfolding d_pow2_zero_iff by blast
  ultimately show ?thesis by simp
qed

theorem distance_double_properties_witness:
  "distance (Point 0 0) (Point 3 4) = distance (Point 3 4) (Point 0 0) \<and>
   distance (Point 0 0) (Point 0 0) = Finite 0 \<and>
   d_ge0 (distance (Point 0 0) (Point 3 4)) \<and>
   distance (Point 0 0) (Point 3 4) \<noteq> Finite 0"
proof -
  note at_3_4 = distance_double_properties [of "Point 0 0" "Point 3 4"]
  have sym: "distance (Point 0 0) (Point 3 4) = distance (Point 3 4) (Point 0 0)"
    using at_3_4 by blast
  have self: "distance (Point 0 0) (Point 0 0) = Finite 0"
    using distance_double_properties [of "Point 0 0" "Point 0 0"] by blast
  have ge: "d_ge0 (distance (Point 0 0) (Point 3 4))"
    using at_3_4 by blast
  have "(2::real) powr (- 1075) \<le> 2 powr 0" by (rule powr_mono) simp_all
  then have "\<not> (3::real) * 3 \<le> 2 powr (- 1075)" by simp
  moreover have "distance (Point 0 0) (Point 3 4) = Finite 0 \<longleftrightarrow>
      (\<exists>a b. d_sub (px (Point 3 4)) (px (Point 0 0)) = Finite a \<and>
             d_sub (py (Point 3 4)) (py (Point 0 0)) = Finite b \<and>
             a * a \<le> 2 powr (- 1075) \<and> b * b \<le> 2 powr (- 1075))"
    using at_3_4 by blast
  ultimately have nz: "distance (Point 0 0) (Point 3 4) \<noteq> Finite 0"
    by (simp add: d_sub_def)
  from sym self ge nz show ?thesis by (intro conjI)
qed

text \<open>
  C8 as stated fails in its last part: the points \<open>(0, 0)\<close> and \<open>(2^-600, 0)\<close> have
  coordinates that are doubles and differ, and their distance is 0, because the square
  \<open>2^-1200\<close> of the difference underflows.
\<close>

theorem distance_zero_counterexample:
  "is_double 0 \<and> is_double (2 powr (- 600)) \<and>
   Point 0 0 \<noteq> Point (2 powr (- 600)) 0 \<and>
   distance (Point 0 0) (Point (2 powr (- 600)) 0) = Finite 0"
proof -
  have r: "round_double (2 powr (- 600)) = Finite (2 powr (- 600))"
    using round_double_power2 [of "- 600"] by simp
  have u: "round_double (2 powr (- 600) * 2 powr (- 600)) = Finite 0"
    unfolding round_double_zero_iff by (simp flip: powr_add)
  have "(2::real) powr (- 600) \<noteq> 0" by simp
  with r u show ?thesis
    by (simp add: is_double_def distance_def d_sub_def)
qed

text \<open>
  C5, as amended: for every point \<open>p\<close> and every polygon with at least 3 vertices, if \<open>p\<close>
  lies on an edge \<open>(a, b)\<close> of the polygon that is horizontal (both endpoints share
  \<open>p\<close>'s y, and \<open>p\<close>'s x is within the segment's x-range) or vertical (both endpoints
  share \<open>p\<close>'s x, and \<open>p\<close>'s y is within the segment's y-range), then \<open>isInside\<close> returns
  true; and the pass of the loop over that edge returns true at the boundary check,
  before the crossing test of that edge and whatever the parity flag is (the crossing
  tests of the edges before it have run by then).
\<close>

theorem isInside_on_boundary:
  assumes "3 \<le> length (vertices polygon)"
    and "(a, b) \<in> set (edges polygon)"
    and "on_horizontal (px p) (py p) a b \<or> on_vertical (px p) (py p) a b"
  shows "isInside p polygon = Inr True \<and> edge_pass (px p) (py p) a b inside = Return True"
proof -
  from assms(2) obtain i where i: "i < length (vertices polygon)"
    "a = vertices polygon ! i" "b = vertices polygon ! (Suc i mod length (vertices polygon))"
    by (auto simp: in_edges)
  have "isInside (Point (px p) (py p)) (Polygon (vertices polygon)) = Inr True"
    using isInside_edge_index [OF assms(1) i(1), of "px p" "py p"] assms(3) i(2,3) by simp
  then show ?thesis using assms(3) by (simp add: edge_pass_boundary)
qed

theorem isInside_on_boundary_witness:
  "3 \<le> length (vertices square) \<and> (Point 0 0, Point 0 4) \<in> set (edges square) \<and>
   on_vertical (px (Point 0 2)) (py (Point 0 2)) (Point 0 0) (Point 0 4) \<and>
   isInside (Point 0 2) square = Inr True \<and>
   edge_pass (px (Point 0 2)) (py (Point 0 2)) (Point 0 0) (Point 0 4) False = Return True"
proof -
  have 1: "3 \<le> length (vertices square)" by (simp add: square_def)
  have 2: "(Point 0 0, Point 0 4) \<in> set (edges square)"
    unfolding in_edges by (rule exI [of _ 0]) (simp add: square_def)
  have 3: "on_vertical (px (Point 0 2)) (py (Point 0 2)) (Point 0 0) (Point 0 4)"
    by (simp add: on_vertical_def)
  from 3 have 4: "on_horizontal (px (Point 0 2)) (py (Point 0 2)) (Point 0 0) (Point 0 4) \<or>
     on_vertical (px (Point 0 2)) (py (Point 0 2)) (Point 0 0) (Point 0 4)" ..
  show ?thesis using 1 2 3 isInside_on_boundary [OF 1 2 4, of False] by simp
qed

text \<open>
  C5 as stated fails in two ways. For every polygon: on a polygon of two vertices, the
  point \<open>(1, 0)\<close> lies on the horizontal edge from \<open>(0, 0)\<close> to \<open>(2, 0)\<close>, and \<open>isInside\<close>
  returns false at the guard on the vertex count. Before the parity logic runs: on the
  square listed from its bottom right corner, the point \<open>(0, 2)\<close> lies on the vertical
  edge from \<open>(0, 4)\<close> to \<open>(0, 0)\<close>, the last one; the pass over the edge from \<open>(4, 0)\<close> to
  \<open>(4, 4)\<close> comes first, meets the crossing test and toggles the parity flag, and only
  the fourth pass returns at the boundary check.
\<close>

theorem isInside_on_boundary_counterexample:
  "(Point 0 0, Point 2 0) \<in> set (edges (Polygon [Point 0 0, Point 2 0])) \<and>
   on_horizontal (px (Point 1 0)) (py (Point 1 0)) (Point 0 0) (Point 2 0) \<and>
   isInside (Point 1 0) (Polygon [Point 0 0, Point 2 0]) = Inr False \<and>
   (Point 0 4, Point 0 0) \<in> set (edges square_from_bottom_right) \<and>
   on_vertical (px (Point 0 2)) (py (Point 0 2)) (Point 0 4) (Point 0 0) \<and>
   crosses (py (Point 0 2)) (Point 4 0) (Point 4 4) \<and>
   edge_pass (px (Point 0 2)) (py (Point 0 2)) (Point 4 0) (Point 4 4) False = Next True \<and>
   isInside_passes (Point 0 2) square_from_bottom_right =
     [Next False, Next True, Next True, Return True] \<and>
   isInside (Point 0 2) square_from_bottom_right = Inr True"
proof -
  have two: "(Point 0 0, Point 2 0) \<in> set (edges (Polygon [Point 0 0, Point 2 0]))"
    unfolding in_edges by (rule exI [of _ 0]) simp
  have last: "(Point 0 4, Point 0 0) \<in> set (edges square_from_bottom_right)"
    unfolding in_edges by (rule exI [of _ 2]) (simp add: square_from_bottom_right_def)
  have passes: "isInside_passes (Point 0 2) square_from_bottom_right =
     [Next False, Next True, Next True, Return True]"
    by (simp add: square_from_bottom_right_def isInside_passes_eval)
  have result: "isInside (Point 0 2) square_from_bottom_right = Inr True"
    by (simp add: isInside_passes_result passes)
  have pass1: "edge_pass (px (Point 0 2)) (py (Point 0 2)) (Point 4 0) (Point 4 4) False
      = Next True"
    by (simp add: edge_pass_def on_horizontal_def on_vertical_def crosses_def)
  from two last passes result pass1 show ?thesis
    by (simp add: on_horizontal_def on_vertical_def crosses_def isInside_def)
qed

text \<open>
  C7: the division by \<open>p2.y - p1.y\<close> is never a division by zero. An edge that meets
  the crossing condition has a divisor other than zero; a horizontal edge never meets the
  crossing condition, and its pass is decided by the boundary check alone (it returns
  true there, or leaves the parity flag as it is); so no call of \<open>isInside\<close> divides by
  zero.
\<close>

theorem isInside_division_safe:
  assumes "crosses y p1 p2"
  shows "py p2 - py p1 \<noteq> 0 \<and> py p1 \<noteq> py p2 \<and>
         \<not> crosses y' (Point a h) (Point b h) \<and>
         edge_pass x y' (Point a h) (Point b h) inside =
           (if on_horizontal x y' (Point a h) (Point b h) then Return True else Next inside) \<and>
         edge_pass x y p1 p2 inside \<noteq> DivZero \<and>
         isInside p polygon \<noteq> Inl DivisionByZero"
proof -
  have "py p2 - py p1 \<noteq> 0" using assms by (rule crosses_divisor)
  moreover have "\<not> crosses y' (Point a h) (Point b h)" by (simp add: crosses_def)
  moreover have "isInside p polygon \<noteq> Inl DivisionByZero"
    by (simp add: isInside_def Let_def isInside_loop_no_DivZero)
  ultimately show ?thesis
    using edge_pass_horizontal [of x y' a h b inside] edge_pass_no_DivZero [of x y p1 p2 inside]
    by auto
qed

theorem isInside_division_safe_witness:
  "crosses 2 (Point 4 4) (Point 4 0) \<and>
   py (Point 4 0) - py (Point 4 4) \<noteq> 0 \<and>
   \<not> crosses 2 (Point 0 4) (Point 4 4) \<and>
   edge_pass 2 2 (Point 0 4) (Point 4 4) False = Next False \<and>
   edge_pass 2 2 (Point 4 4) (Point 4 0) False \<noteq> DivZero \<and>
   isInside (Point 2 2) square \<noteq> Inl DivisionByZero"
proof -
  have c: "crosses 2 (Point 4 4) (Point 4 0)" by (simp add: crosses_def)
  have h: "\<not> on_horizontal 2 2 (Point 0 4) (Point 4 4)" by (simp add: on_horizontal_def)
  show ?thesis
    using c h isInside_division_safe [OF c, of 2 0 4 4 2 False "Point 2 2" square]
    by simp
qed

text \<open>
  C10: for every polygon with at least 3 vertices, \<open>isInside\<close> of a point equal to the
  first vertex returns true, whatever the shape: the first pass of the loop is over the
  edge from \<open>vertices[0]\<close> to \<open>vertices[0 % n]\<close>, which is \<open>vertices[0]\<close> again, and the
  check for a horizontal segment holds of it.
\<close>

theorem isInside_first_vertex:
  assumes "3 \<le> length (vertices polygon)" and "p = vertices polygon ! 0"
  shows "isInside p polygon = Inr True \<and>
         vertices polygon ! (0 mod length (vertices polygon)) = p \<and>
         on_horizontal (px p) (py p) p p \<and>
         edge_pass (px p) (py p) p p inside = Return True"
proof -
  have on: "on_horizontal (px p) (py p) p p" by (simp add: on_horizontal_def)
  then have pass: "edge_pass (px p) (py p) p p b = Return True" for b
    by (simp add: edge_pass_boundary)
  have "isInside_loop (vertices polygon) (length (vertices polygon)) (px p) (py p) 0 p False
          = Inr True"
    using assms(2) pass [of False]
    by (simp add: isInside_loop.simps [of _ _ _ _ 0])
  with assms on pass show ?thesis by (simp add: isInside_def)
qed

theorem isInside_first_vertex_witness:
  "3 \<le> length (vertices triangle) \<and> Point 1 1 = vertices triangle ! 0 \<and>
   isInside (Point 1 1) triangle = Inr True"
proof -
  have 1: "3 \<le> length (vertices triangle)" by (simp add: triangle_def)
  have 2: "Point 1 1 = vertices triangle ! 0" by (simp add: triangle_def)
  show ?thesis using 1 2 isInside_first_vertex [OF 1 2, of False] by simp
qed

section \<open>Properties of the robot\<close>

lemma sqrt_sum_squares_factor:
  assumes "x \<noteq> 0"
  shows "sqrt (x ^ 2 + y ^ 2) = \<bar>x\<bar> * sqrt (1 + (y / x) ^ 2)"
proof -
  have "x ^ 2 + y ^ 2 = x ^ 2 * (1 + (y / x) ^ 2)"
    using assms by (simp add: field_simps power2_eq_square)
  then show ?thesis by (simp add: real_sqrt_mult)
qed

lemma atan2_range: "- pi < atan2 y x \<and> atan2 y x \<le> pi"
proof -
  have b: "- (pi / 2) < arctan (y / x)" "arctan (y / x) < pi / 2"
    by (rule arctan_lbound, rule arctan_ubound)
  have neg: "x < 0 \<Longrightarrow> 0 \<le> y \<Longrightarrow> arctan (y / x) \<le> 0"
    by (simp add: divide_nonneg_neg)
  have pos: "x < 0 \<Longrightarrow> y < 0 \<Longrightarrow> 0 < arctan (y / x)"
    by (simp add: divide_neg_neg)
  show ?thesis
    using b neg pos pi_gt_zero unfolding atan2_def by (auto simp: not_less)
qed

text \<open>The point \<open>(x, y)\<close> lies at the angle \<open>atan2 y x\<close>, at its distance from the origin.\<close>

lemma atan2_polar:
  assumes "x \<noteq> 0 \<or> y \<noteq> 0"
  shows "sqrt (x ^ 2 + y ^ 2) * cos (atan2 y x) = x \<and>
         sqrt (x ^ 2 + y ^ 2) * sin (atan2 y x) = y"
proof (cases "x = 0")
  case True
  with assms show ?thesis by (auto simp: atan2_def)
next
  case False
  let ?t = "y / x"
  have s: "sqrt (1 + ?t ^ 2) \<noteq> 0" "0 < sqrt (1 + ?t ^ 2)"
    by (simp_all add: add_pos_nonneg less_imp_neq [symmetric])
  have c: "sqrt (x ^ 2 + y ^ 2) * cos (arctan ?t) = \<bar>x\<bar>"
    using s by (simp add: sqrt_sum_squares_factor [OF False] cos_arctan)
  have d: "sqrt (x ^ 2 + y ^ 2) * sin (arctan ?t) = \<bar>x\<bar> * ?t"
    using s by (simp add: sqrt_sum_squares_factor [OF False] sin_arctan)
  show ?thesis
  proof (cases "0 < x")
    case True
    with c d show ?thesis by (simp add: atan2_def)
  next
    case neg: False
    with False have "x < 0" by simp
    with c d show ?thesis by (simp add: atan2_def sin_diff cos_diff sin_add cos_add)
  qed
qed

lemma atan2_axes:
  assumes "0 < d"
  shows "atan2 0 d * (180 / pi) = 0" and "atan2 d 0 * (180 / pi) = 90"
    and "atan2 0 (- d) * (180 / pi) = 180" and "atan2 (- d) 0 * (180 / pi) = - 90"
    and "atan2 d d * (180 / pi) = 45"
  using assms by (simp_all add: atan2_def arctan_one)

text \<open>
  C9: for every robot state and every target point, \<open>moveTo\<close> sets the position to the
  target; if the target differs from the current position, the orientation becomes
  \<open>atan2 delta_y delta_x\<close> in degrees, the deltas taken from the previous position to the
  target (a step along the positive x axis gives 0 degrees, one along the positive y
  axis 90); if the target equals the current position, the orientation stays as it was.
\<close>

theorem moveTo_position_orientation:
  "getPosition (moveTo robot target) = target \<and>
   getOrientation (moveTo robot target) =
     (if target \<noteq> getPosition robot
      then atan2 (py target - py (getPosition robot)) (px target - px (getPosition robot))
             * (180 / pi)
      else getOrientation robot) \<and>
   getOrientation
     (moveTo robot (Point (px (getPosition robot) + 1) (py (getPosition robot)))) = 0 \<and>
   getOrientation
     (moveTo robot (Point (px (getPosition robot)) (py (getPosition robot) + 1))) = 90"
proof -
  let ?pos = "current_position robot"
  have moved: "current_position (moveTo robot t) = t" for t
    by (simp add: moveTo_def Let_def)
  have same: "current_orientation_deg (moveTo robot ?pos) = current_orientation_deg robot"
    by (simp add: moveTo_def Let_def)
  have turned: "current_orientation_deg (moveTo robot t) =
      atan2 (py t - py ?pos) (px t - px ?pos) * (180 / pi)" if "t \<noteq> ?pos" for t
  proof -
    from that have "px t - px ?pos \<noteq> 0 \<or> py t - py ?pos \<noteq> 0"
      by (auto simp: Point.expand)
    then show ?thesis by (auto simp: moveTo_def Let_def)
  qed
  have east: "current_orientation_deg (moveTo robot (Point (px ?pos + 1) (py ?pos))) = 0"
    by (simp add: moveTo_def Let_def atan2_def)
  have north: "current_orientation_deg (moveTo robot (Point (px ?pos) (py ?pos + 1))) = 90"
    by (simp add: moveTo_def Let_def atan2_def)
  from moved same turned east north show ?thesis
    by (simp add: getPosition_def getOrientation_def)
qed

theorem moveTo_position_orientation_witness:
  "getPosition (moveTo (new_Robot (Point 0 0) 30) (Point (- 1) 0)) = Point (- 1) 0 \<and>
   getOrientation (moveTo (new_Robot (Point 0 0) 30) (Point (- 1) 0)) = 180 \<and>
   getOrientation (moveTo (new_Robot (Point 0 0) 30) (Point 0 0)) = 30"
  using moveTo_position_orientation [of "new_Robot (Point 0 0) 30" "Point (- 1) 0"]
    moveTo_position_orientation [of "new_Robot (Point 0 0) 30" "Point 0 0"]
  by (simp add: new_Robot_def getPosition_def getOrientation_def atan2_def)

section \<open>Properties of the sweep path planner\<close>

lemma concat_map_upt_Suc:
  "concat (map f [0..<Suc N]) = f 0 @ concat (map (\<lambda>k. f (Suc k)) [0..<N])"
proof -
  have "[0..<Suc N] = 0 # map Suc [0..<N]"
    by (simp add: upt_conv_Cons map_Suc_upt del: upt_Suc)
  then show ?thesis by (simp add: comp_def del: upt_Suc)
qed

text \<open>
  The loop started at \<open>y0\<close> makes the sweeps at \<open>y0 + k * width\<close> for \<open>k\<close> below the first
  number \<open>N\<close> at which the loop condition fails, alternating from the direction it was
  started with.
\<close>

lemma sweep_loop_unroll:
  assumes w: "0 < width"
  shows "(\<forall>k<N. y0 + real k * width \<le> mxy - width / 2) \<Longrightarrow>
         \<not> y0 + real N * width \<le> mxy - width / 2 \<Longrightarrow>
         sweep_loop mnx mxx mxy width y0 ltr =
           concat (map (\<lambda>k. sweep mnx mxx (y0 + real k * width) (ltr = even k)) [0..<N])"
proof (induction N arbitrary: y0 ltr)
  case 0
  then show ?case by (simp add: sweep_loop.simps [of _ _ _ _ y0])
next
  case (Suc N)
  from Suc.prems(1) have first: "y0 \<le> mxy - width / 2" by force
  have a: "\<forall>k<N. (y0 + width) + real k * width \<le> mxy - width / 2"
  proof (intro allI impI)
    fix k assume "k < N"
    then have "y0 + real (Suc k) * width \<le> mxy - width / 2" using Suc.prems(1) by blast
    then show "(y0 + width) + real k * width \<le> mxy - width / 2" by (simp add: algebra_simps)
  qed
  have b: "\<not> (y0 + width) + real N * width \<le> mxy - width / 2"
    using Suc.prems(2) by (simp add: algebra_simps)
  have "sweep_loop mnx mxx mxy width y0 ltr =
          sweep mnx mxx y0 ltr @ sweep_loop mnx mxx mxy width (y0 + width) (\<not> ltr)"
    using w first by (simp add: sweep_loop.simps [of _ _ _ _ y0])
  also have "sweep_loop mnx mxx mxy width (y0 + width) (\<not> ltr) =
      concat (map (\<lambda>k. sweep mnx mxx ((y0 + width) + real k * width) ((\<not> ltr) = even k))
                [0..<N])"
    by (rule Suc.IH [OF a b])
  also have "\<dots> =
      concat (map (\<lambda>k. sweep mnx mxx (y0 + real (Suc k) * width) (ltr = even (Suc k)))
                [0..<N])"
  proof -
    have "((\<not> ltr) = even k) = (ltr = even (Suc k))" for k by auto
    then show ?thesis by (simp add: algebra_simps)
  qed
  finally show ?case
    by (simp add: concat_map_upt_Suc del: upt_Suc)
qed

lemma sweep_count:
  assumes "0 < (width :: real)"
  shows "k < nat \<lfloor>(mxy - mny) / width\<rfloor> \<longleftrightarrow>
         mny + width / 2 + real k * width \<le> mxy - width / 2"
proof -
  have "k < nat \<lfloor>(mxy - mny) / width\<rfloor> \<longleftrightarrow> int k + 1 \<le> \<lfloor>(mxy - mny) / width\<rfloor>"
    by linarith
  also have "\<dots> \<longleftrightarrow> real_of_int (int k + 1) \<le> (mxy - mny) / width"
    by (rule le_floor_iff)
  also have "\<dots> \<longleftrightarrow> (real k + 1) * width \<le> mxy - mny"
    using assms by (simp add: pos_le_divide_eq)
  also have "\<dots> \<longleftrightarrow> mny + width / 2 + real k * width \<le> mxy - width / 2"
    by (simp add: algebra_simps)
  finally show ?thesis .
qed

lemma generatePath_sweeps:
  fixes planner :: SweepPathPlanner
  defines "vs \<equiv> vertices (area_to_mow planner)" and "w \<equiv> cutting_width planner"
  defines "N \<equiv> nat \<lfloor>(max_y vs - min_y vs) / w\<rfloor>"
  defines "path \<equiv> concat (map (sweep_line (min_x vs) (max_x vs) (min_y vs) w) [0..<N])"
  assumes w: "0 < w" and n: "3 \<le> length vs" and h: "w \<le> max_y vs - min_y vs"
  shows "generatePath planner = Inr (path, planner\<lparr>waypoints := path\<rparr>)"
    and "length path = 2 * N"
    and "k < N \<longleftrightarrow> min_y vs + w / 2 + real k * w \<le> max_y vs - w / 2"
proof -
  show cnt: "k < N \<longleftrightarrow> min_y vs + w / 2 + real k * w \<le> max_y vs - w / 2" for k
    unfolding N_def using w by (rule sweep_count)
  have "sweep_loop (min_x vs) (max_x vs) (max_y vs) w (min_y vs + w / 2) True =
          concat (map (\<lambda>k. sweep (min_x vs) (max_x vs) (min_y vs + w / 2 + real k * w)
                          (True = even k)) [0..<N])"
    using cnt by (intro sweep_loop_unroll [OF w]) auto
  also have "\<dots> = path"
  proof -
    have "(\<lambda>k. sweep (min_x vs) (max_x vs) (min_y vs + w / 2 + real k * w) (True = even k))
            = sweep_line (min_x vs) (max_x vs) (min_y vs) w"
      by (rule ext) (simp add: sweep_line_def sweep_def Let_def)
    then show ?thesis by (simp add: path_def)
  qed
  finally have loop:
    "sweep_loop (min_x vs) (max_x vs) (max_y vs) w (min_y vs + w / 2) True = path" .
  show "generatePath planner = Inr (path, planner\<lparr>waypoints := path\<rparr>)"
    using w n h loop by (simp add: generatePath_def Let_def vs_def w_def)
  show "length path = 2 * N"
  proof -
    have "length \<circ> sweep_line (min_x vs) (max_x vs) (min_y vs) w = (\<lambda>k. 2)"
      by (rule ext) (simp add: sweep_line_def Let_def)
    then show ?thesis by (simp add: path_def length_concat sum_list_triv)
  qed
qed

lemma rectangle_extent:
  assumes "x0 \<le> x1" and "y0 \<le> y1"
  shows "min_x (vertices (rectangle x0 y0 x1 y1)) = x0"
    and "max_x (vertices (rectangle x0 y0 x1 y1)) = x1"
    and "min_y (vertices (rectangle x0 y0 x1 y1)) = y0"
    and "max_y (vertices (rectangle x0 y0 x1 y1)) = y1"
  using assms by (simp_all add: rectangle_def min_x_def max_x_def min_y_def max_y_def)

lemmas plan_eval =
  plan_def new_SweepPathPlanner_def generatePath_def rectangle_def
  min_x_def max_x_def min_y_def max_y_def sweep_loop.simps sweep_def Let_def

text \<open>
  The path is cached, and generating again from the planner that holds it gives the same
  path (the idempotence of section 8 of the specification).
\<close>

lemma generatePath_caches:
  assumes "generatePath planner = Inr (path, planner')"
  shows "getWaypoints planner' = path \<and> generatePath planner' = Inr (path, planner')"
proof -
  from assms have w: "\<not> cutting_width planner \<le> 0"
    by (auto simp: generatePath_def Let_def split: if_splits)
  with assms have p': "planner' = planner\<lparr>waypoints := path\<rparr>"
    by (auto simp: generatePath_def Let_def)
  from assms w show ?thesis
    unfolding p' getWaypoints_def by (auto simp: generatePath_def Let_def)
qed

text \<open>The lawn of the simulation's \<open>main\<close>: 10 sweeps, 20 waypoints, none of them missing.\<close>

lemma plan_lawn:
  "plan (rectangle 0 0 20 10) 1 =
     Inr [Point 0 (1/2), Point 20 (1/2), Point 20 (3/2), Point 0 (3/2),
          Point 0 (5/2), Point 20 (5/2), Point 20 (7/2), Point 0 (7/2),
          Point 0 (9/2), Point 20 (9/2), Point 20 (11/2), Point 0 (11/2),
          Point 0 (13/2), Point 20 (13/2), Point 20 (15/2), Point 0 (15/2),
          Point 0 (17/2), Point 20 (17/2), Point 20 (19/2), Point 0 (19/2)]"
  by (simp add: plan_eval)

text \<open>
  C1: for every polygon with at least 3 vertices, so for every axis-aligned rectangle
  given by its 4 corners, with height \<open>max_y - min_y \<ge> width > 0\<close>, the path is the
  sweep lines 0 up to \<open>N\<close> one after the other, two waypoints each; sweep \<open>k\<close> is at
  \<open>y = min_y + width / 2 + k * width\<close>, and \<open>k\<close> is below \<open>N\<close> exactly when that \<open>y\<close> is at
  most \<open>max_y - width / 2\<close>; sweeps of even index go from \<open>min_x\<close> to \<open>max_x\<close>, those of
  odd index from \<open>max_x\<close> to \<open>min_x\<close>. The rectangle (0,0)-(5,10) with width 2 yields the 10
  waypoints of the sweeps at y = 1, 3, 5, 7, 9, the first one left-to-right, and the
  rectangle (0,0)-(5,9) with width 2 yields the 8 waypoints of the sweeps at
  y = 1, 3, 5, 7.
\<close>

theorem generatePath_rectangle_sweeps:
  assumes "3 \<le> length (vertices area)"
    and "0 < width"
    and "width \<le> max_y (vertices area) - min_y (vertices area)"
  shows "(\<exists>N. plan area width =
            Inr (concat (map (sweep_line (min_x (vertices area)) (max_x (vertices area))
                               (min_y (vertices area)) width) [0..<N])) \<and>
            length (concat (map (sweep_line (min_x (vertices area)) (max_x (vertices area))
                               (min_y (vertices area)) width) [0..<N])) = 2 * N \<and>
            (\<forall>k. k < N \<longleftrightarrow>
               min_y (vertices area) + width / 2 + real k * width
                 \<le> max_y (vertices area) - width / 2)) \<and>
         plan (rectangle 0 0 5 10) 2 =
           Inr [Point 0 1, Point 5 1, Point 5 3, Point 0 3, Point 0 5, Point 5 5,
                Point 5 7, Point 0 7, Point 0 9, Point 5 9] \<and>
         plan (rectangle 0 0 5 9) 2 =
           Inr [Point 0 1, Point 5 1, Point 5 3, Point 0 3, Point 0 5, Point 5 5,
                Point 5 7, Point 0 7]"
proof -
  let ?planner = "\<lparr>area_to_mow = area, cutting_width = width, waypoints = []\<rparr>"
  let ?N = "nat \<lfloor>(max_y (vertices area) - min_y (vertices area)) / width\<rfloor>"
  let ?path = "concat (map (sweep_line (min_x (vertices area)) (max_x (vertices area))
                              (min_y (vertices area)) width) [0..<?N])"
  have new: "new_SweepPathPlanner area width = Inr ?planner"
    using assms(2) by (simp add: new_SweepPathPlanner_def)
  have gen: "generatePath ?planner = Inr (?path, ?planner\<lparr>waypoints := ?path\<rparr>)"
    using generatePath_sweeps(1) [of ?planner] assms by simp
  have "plan area width = Inr ?path"
    by (simp add: plan_def new gen)
  moreover have "length ?path = 2 * ?N"
    using generatePath_sweeps(2) [of ?planner] assms by simp
  moreover have "\<forall>k. k < ?N \<longleftrightarrow>
      min_y (vertices area) + width / 2 + real k * width \<le> max_y (vertices area) - width / 2"
    using generatePath_sweeps(3) [of ?planner] assms by simp
  ultimately have general: "\<exists>N. plan area width =
            Inr (concat (map (sweep_line (min_x (vertices area)) (max_x (vertices area))
                               (min_y (vertices area)) width) [0..<N])) \<and>
            length (concat (map (sweep_line (min_x (vertices area)) (max_x (vertices area))
                               (min_y (vertices area)) width) [0..<N])) = 2 * N \<and>
            (\<forall>k. k < N \<longleftrightarrow>
               min_y (vertices area) + width / 2 + real k * width
                 \<le> max_y (vertices area) - width / 2)"
    by blast
  have r10: "plan (rectangle 0 0 5 10) 2 =
           Inr [Point 0 1, Point 5 1, Point 5 3, Point 0 3, Point 0 5, Point 5 5,
                Point 5 7, Point 0 7, Point 0 9, Point 5 9]"
    by (simp add: plan_eval)
  have r9: "plan (rectangle 0 0 5 9) 2 =
           Inr [Point 0 1, Point 5 1, Point 5 3, Point 0 3, Point 0 5, Point 5 5,
                Point 5 7, Point 0 7]"
    by (simp add: plan_eval)
  from general r10 r9 show ?thesis by (intro conjI)
qed

theorem generatePath_rectangle_sweeps_witness:
  "3 \<le> length (vertices (rectangle 0 0 20 10)) \<and> (0::real) < 1 \<and>
   1 \<le> max_y (vertices (rectangle 0 0 20 10)) - min_y (vertices (rectangle 0 0 20 10)) \<and>
   (\<exists>N. plan (rectangle 0 0 20 10) 1 =
           Inr (concat (map (sweep_line (min_x (vertices (rectangle 0 0 20 10)))
                  (max_x (vertices (rectangle 0 0 20 10)))
                  (min_y (vertices (rectangle 0 0 20 10))) 1) [0..<N])) \<and>
         (\<forall>k. k < N \<longleftrightarrow>
            min_y (vertices (rectangle 0 0 20 10)) + 1 / 2 + real k * 1
              \<le> max_y (vertices (rectangle 0 0 20 10)) - 1 / 2))"
proof -
  have 1: "3 \<le> length (vertices (rectangle 0 0 20 10))" by (simp add: rectangle_def)
  have 2: "(0::real) < 1" by simp
  have 3: "1 \<le> max_y (vertices (rectangle 0 0 20 10)) - min_y (vertices (rectangle 0 0 20 10))"
    by (simp add: rectangle_def max_y_def min_y_def)
  from generatePath_rectangle_sweeps [OF 1 2 3] 1 2 3 show ?thesis by blast
qed

text \<open>
  C2: for every polygon with at least 3 vertices, so for every axis-aligned rectangle
  given by its 4 corners, whose height is positive and less than the width, the path is
  the two waypoints of one sweep at \<open>y = (min_y + max_y) / 2\<close>, from \<open>min_x\<close> to \<open>max_x\<close>.
\<close>

theorem generatePath_undersized:
  assumes "3 \<le> length (vertices area)"
    and "min_y (vertices area) < max_y (vertices area)"
    and "max_y (vertices area) - min_y (vertices area) < width"
  shows "plan area width =
     Inr [Point (min_x (vertices area)) ((min_y (vertices area) + max_y (vertices area)) / 2),
          Point (max_x (vertices area)) ((min_y (vertices area) + max_y (vertices area)) / 2)]"
  using assms
  by (simp add: plan_def new_SweepPathPlanner_def generatePath_def Let_def sweep_def)

theorem generatePath_undersized_witness:
  "3 \<le> length (vertices (rectangle 0 0 5 1)) \<and>
   min_y (vertices (rectangle 0 0 5 1)) < max_y (vertices (rectangle 0 0 5 1)) \<and>
   max_y (vertices (rectangle 0 0 5 1)) - min_y (vertices (rectangle 0 0 5 1)) < 2 \<and>
   plan (rectangle 0 0 5 1) 2 = Inr [Point 0 (1/2), Point 5 (1/2)]"
proof -
  have 1: "3 \<le> length (vertices (rectangle 0 0 5 1))" by (simp add: rectangle_def)
  have 2: "min_y (vertices (rectangle 0 0 5 1)) < max_y (vertices (rectangle 0 0 5 1))"
    by (simp add: rectangle_def max_y_def min_y_def)
  have 3: "max_y (vertices (rectangle 0 0 5 1)) - min_y (vertices (rectangle 0 0 5 1)) < 2"
    by (simp add: rectangle_def max_y_def min_y_def)
  have "plan (rectangle 0 0 5 1) 2 = Inr [Point 0 (1/2), Point 5 (1/2)]"
    using generatePath_undersized [OF 1 2 3]
    by (simp add: rectangle_def min_x_def max_x_def min_y_def max_y_def)
  with 1 2 3 show ?thesis by blast
qed

text \<open>
  C3: for every planner that was constructed, if its polygon has fewer than 3 vertices,
  or \<open>max_y \<le> min_y\<close>, then \<open>generatePath\<close> returns the empty sequence: a result, not an
  error, and no waypoint.
\<close>

theorem generatePath_degenerate:
  assumes "new_SweepPathPlanner area width = Inr planner"
    and "length (vertices area) < 3 \<or> max_y (vertices area) \<le> min_y (vertices area)"
  shows "generatePath planner = Inr ([], planner) \<and> plan area width = Inr []"
  using assms
  by (auto simp: plan_def new_SweepPathPlanner_def generatePath_def Let_def split: if_splits)

theorem generatePath_degenerate_witness:
  "new_SweepPathPlanner (Polygon [Point 0 0, Point 5 0, Point 9 0]) 2 =
     Inr \<lparr>area_to_mow = Polygon [Point 0 0, Point 5 0, Point 9 0], cutting_width = 2,
          waypoints = []\<rparr> \<and>
   max_y (vertices (Polygon [Point 0 0, Point 5 0, Point 9 0]))
     \<le> min_y (vertices (Polygon [Point 0 0, Point 5 0, Point 9 0])) \<and>
   plan (Polygon [Point 0 0, Point 5 0, Point 9 0]) 2 = Inr [] \<and>
   new_SweepPathPlanner (Polygon [Point 0 0, Point 5 7]) 2 =
     Inr \<lparr>area_to_mow = Polygon [Point 0 0, Point 5 7], cutting_width = 2, waypoints = []\<rparr> \<and>
   length (vertices (Polygon [Point 0 0, Point 5 7])) < 3 \<and>
   plan (Polygon [Point 0 0, Point 5 7]) 2 = Inr []"
proof -
  let ?flat = "Polygon [Point 0 0, Point 5 0, Point 9 0]"
  let ?two = "Polygon [Point 0 0, Point 5 7]"
  have 1: "new_SweepPathPlanner ?flat 2 =
     Inr \<lparr>area_to_mow = ?flat, cutting_width = 2, waypoints = []\<rparr>"
    by (simp add: new_SweepPathPlanner_def)
  have 2: "max_y (vertices ?flat) \<le> min_y (vertices ?flat)"
    by (simp add: max_y_def min_y_def)
  then have 3: "length (vertices ?flat) < 3 \<or> max_y (vertices ?flat) \<le> min_y (vertices ?flat)" ..
  have 4: "new_SweepPathPlanner ?two 2 =
     Inr \<lparr>area_to_mow = ?two, cutting_width = 2, waypoints = []\<rparr>"
    by (simp add: new_SweepPathPlanner_def)
  have 5: "length (vertices ?two) < 3" by simp
  then have 6: "length (vertices ?two) < 3 \<or> max_y (vertices ?two) \<le> min_y (vertices ?two)" ..
  from generatePath_degenerate [OF 1 3] generatePath_degenerate [OF 4 6] 1 2 4 5
  show ?thesis by blast
qed

text \<open>
  C4: for every width that is not positive, no waypoint sequence is produced: the
  construction of the planner fails with InvalidWidth, \<open>generatePath\<close> of a planner
  holding such a width signals InvalidWidth, and so the callers' construction followed
  by \<open>generatePath\<close> yields the error and never a sequence.
\<close>

theorem nonpositive_width_fails:
  assumes "width \<le> 0"
  shows "new_SweepPathPlanner area width = Inl InvalidWidth \<and>
         generatePath (planner\<lparr>cutting_width := width\<rparr>) = Inl InvalidWidth \<and>
         plan area width = Inl InvalidWidth \<and>
         (\<forall>path. plan area width \<noteq> Inr path)"
  using assms by (simp add: plan_def new_SweepPathPlanner_def generatePath_def Let_def)

theorem nonpositive_width_fails_witness:
  "(0::real) \<le> 0 \<and>
   new_SweepPathPlanner (rectangle 0 0 5 10) 0 = Inl InvalidWidth \<and>
   generatePath \<lparr>area_to_mow = rectangle 0 0 5 10, cutting_width = 0, waypoints = []\<rparr>
     = Inl InvalidWidth \<and>
   plan (rectangle 0 0 5 10) 0 = Inl InvalidWidth \<and>
   (- 2 :: real) \<le> 0 \<and> plan (rectangle 0 0 5 10) (- 2) = Inl InvalidWidth"
proof -
  have 1: "(0::real) \<le> 0" and 2: "(- 2 :: real) \<le> 0" by simp_all
  from nonpositive_width_fails [OF 1, of "rectangle 0 0 5 10"
      "\<lparr>area_to_mow = rectangle 0 0 5 10, cutting_width = 2, waypoints = []\<rparr>"]
    nonpositive_width_fails [OF 2, of "rectangle 0 0 5 10"]
  show ?thesis by simp
qed

end
